theory Spec2Isabelle
  imports Complex_Main "HOL-Library.Multiset"
begin

section \<open>The RNTuple output sink (RNTupleOutputer.cc)\<close>

text \<open>
  The members of the C++ classes keep their names without the trailing underscore
  (\<open>entries_\<close> is \<open>entries\<close>, \<open>id_\<close> is \<open>idPtr\<close>). Storage addresses, object
  pointers and lane indices are natural numbers. The two timing accumulators
  \<open>collateTime_\<close> and \<open>parallelTime_\<close> and the verbose printing are left out: they
  read the wall clock and write to the terminal only.
\<close>

record EventIdentifier =
  run :: nat
  lumi :: nat
  event :: nat

text \<open>
  The accessors of a data-product slot that the sink reads: \<open>name()\<close>,
  \<open>classType()->GetName()\<close> and \<open>address()\<close>.
\<close>

record DataProductRetriever =
  name :: string
  classType :: string
  address :: nat

text \<open>
  What \<open>BindRawPtr\<close> attaches to a field of an entry: the object pointer read from a
  product's storage, or the shared event identifier with the value it holds when the
  entry is filled.
\<close>

datatype bound = ProductPtr nat | EventIDPtr EventIdentifier

type_synonym row = "(string \<times> bound) list"

record RNTupleWriter =
  modelFields :: "(string \<times> string) list"
  writerFile :: string
  filled :: "row list"

text \<open>
  The ROOT library is outside the repository. Its two calls that can throw are
  parameters: whether \<open>RFieldBase::Create(name, type)\<close> followed by \<open>AddField\<close> succeeds
  on a model that already has the given fields, and whether \<open>RNTupleWriter::Recreate\<close>
  can open the file.
\<close>

record ROOT =
  createField :: "(string \<times> string) list \<Rightarrow> string \<Rightarrow> string \<Rightarrow> bool"
  recreate :: "string \<Rightarrow> bool"

record RNTupleOutputer =
  fileName :: string
  entries :: "nat list list"
  fieldIDs :: "string list"
  idPtr :: "EventIdentifier option"
  ntuple :: "RNTupleWriter option"
  eventGlobalOffset :: nat

text \<open>
  Every throw of the source is a value. \<open>FailedToCreateField\<close> is the
  \<open>std::runtime_error\<close> of line 45, \<open>SetupNotSequential\<close> the \<open>std::logic_error\<close> of
  line 68, \<open>RootException\<close> an exception of ROOT that the source does not catch. The
  last two are the undefined behaviour of C++ made explicit: indexing a vector out of
  range and calling through the null \<open>ntuple_\<close>.
\<close>

datatype error =
    FailedToCreateField
  | SetupNotSequential
  | RootException
  | IndexOutOfRange
  | NullNtuple

definition RNTupleOutputer_new :: "string \<Rightarrow> nat \<Rightarrow> RNTupleOutputer" where
  "RNTupleOutputer_new file iNLanes =
     \<lparr>fileName = file, entries = replicate iNLanes [], fieldIDs = [], idPtr = None,
      ntuple = None, eventGlobalOffset = 0\<rparr>"

text \<open>
  \<open>dp.name().substr(0, dp.name().find("."))\<close>: the name up to its first dot, the whole
  name when it has none.
\<close>

definition chopName :: "string \<Rightarrow> string" where
  "chopName n = takeWhile (\<lambda>c. c \<noteq> CHR ''.'') n"

text \<open>
  The loop of lines 28 to 47 over the data products of lane 0. It carries
  \<open>hasEventAuxiliaryBranch\<close>, the fields of the model and \<open>fieldIDs_\<close>.
\<close>

fun createFields ::
  "ROOT \<Rightarrow> DataProductRetriever list \<Rightarrow> bool \<times> (string \<times> string) list \<times> string list
    \<Rightarrow> error + bool \<times> (string \<times> string) list \<times> string list" where
  "createFields R [] st = Inr st"
| "createFields R (dp # dps) (has, model, fids) =
     (let has' = (has \<or> name dp = ''EventAuxiliary'');
          nm = chopName (name dp)
      in if createField R model nm (classType dp)
         then createFields R dps (has', model @ [(nm, classType dp)], fids @ [nm])
         else Inl FailedToCreateField)"

text \<open>
  The loop of lines 71 to 74: \<open>entries_[iLaneIndex].ptrs.push_back(dp.address())\<close>.
\<close>

fun bindStorage ::
  "nat \<Rightarrow> DataProductRetriever list \<Rightarrow> RNTupleOutputer \<Rightarrow> error + RNTupleOutputer" where
  "bindStorage iLaneIndex [] s = Inr s"
| "bindStorage iLaneIndex (dp # dps) s =
     (if iLaneIndex < length (entries s)
      then bindStorage iLaneIndex dps
             (s\<lparr>entries := (entries s)[iLaneIndex := entries s ! iLaneIndex @ [address dp]]\<rparr>)
      else Inl IndexOutOfRange)"

definition eventIDField :: "string \<times> string" where
  "eventIDField = (''EventID'', ''cce::tf::EventIdentifier'')"

definition setupForLane ::
  "ROOT \<Rightarrow> nat \<Rightarrow> DataProductRetriever list \<Rightarrow> RNTupleOutputer \<Rightarrow> error + RNTupleOutputer" where
  "setupForLane R iLaneIndex iDPs s =
     (if iLaneIndex = 0 then
        (case createFields R iDPs (False, [], fieldIDs s) of
           Inl e \<Rightarrow> Inl e
         | Inr (hasEventAuxiliaryBranch, model, fids) \<Rightarrow>
             (if \<not> hasEventAuxiliaryBranch \<and> \<not> createField R model (fst eventIDField) (snd eventIDField)
              then Inl RootException
              else
                let s1 = (if \<not> hasEventAuxiliaryBranch
                          then s\<lparr>fieldIDs := fids @ [fst eventIDField],
                                 idPtr := Some \<lparr>run = 0, lumi = 0, event = 0\<rparr>\<rparr>
                          else s\<lparr>fieldIDs := fids\<rparr>);
                    model1 = (if \<not> hasEventAuxiliaryBranch then model @ [eventIDField] else model)
                in if recreate R (fileName s)
                   then bindStorage iLaneIndex iDPs
                          (s1\<lparr>ntuple := Some \<lparr>modelFields = model1, writerFile = fileName s,
                                                filled = []\<rparr>\<rparr>)
                   else Inl RootException))
      else if ntuple s = None then Inl SetupNotSequential
      else bindStorage iLaneIndex iDPs s)"

text \<open>
  The loop of lines 114 to 117 of \<open>collateProducts\<close>: the \<open>i\<close>-th storage address is
  dereferenced (\<open>deref\<close> is the memory the event source has filled) and bound to
  \<open>fieldIDs_[i]\<close>.
\<close>

fun bindProducts ::
  "(nat \<Rightarrow> nat) \<Rightarrow> string list \<Rightarrow> nat list \<Rightarrow> nat \<Rightarrow> row \<Rightarrow> error + row" where
  "bindProducts deref fids [] i rentry = Inr rentry"
| "bindProducts deref fids (ptr # ptrs) i rentry =
     (if i < length fids
      then bindProducts deref fids ptrs (Suc i) (rentry @ [(fids ! i, ProductPtr (deref ptr))])
      else Inl IndexOutOfRange)"

text \<open>
  Lines 110 to 122 of \<open>collateProducts\<close>: everything it does to the sink. The release
  of its callback, when the parameter dies at line 125, is added where the task
  holders are modelled.
\<close>

definition fillEntry ::
  "(nat \<Rightarrow> nat) \<Rightarrow> EventIdentifier \<Rightarrow> nat list \<Rightarrow> RNTupleOutputer \<Rightarrow> error + RNTupleOutputer" where
  "fillEntry deref iEventID ptrs s =
     (case ntuple s of
        None \<Rightarrow> Inl NullNtuple
      | Some w \<Rightarrow>
          (case bindProducts deref (fieldIDs s) ptrs 0 [] of
             Inl e \<Rightarrow> Inl e
           | Inr rentry \<Rightarrow>
               let s1 = s\<lparr>eventGlobalOffset := eventGlobalOffset s + 1\<rparr>;
                   s2 = (if idPtr s1 \<noteq> None then s1\<lparr>idPtr := Some iEventID\<rparr> else s1);
                   rentry1 = (if idPtr s1 \<noteq> None
                              then rentry @ [(fst eventIDField, EventIDPtr iEventID)]
                              else rentry)
               in Inr (s2\<lparr>ntuple := Some (w\<lparr>filled := filled w @ [rentry1]\<rparr>)\<rparr>)))"

section \<open>Task holders and the scheduling group\<close>

text \<open>
  The continuations of the source are closures; each is a constructor that holds what
  the closure captures. A lane is captured (\<open>this\<close>) as its index.
  \<^item> \<open>OutputTask lane callback\<close>: Lane.cc lines 54 to 57;
  \<^item> \<open>ProductReadyTask laneIndex index holder\<close>: Lane.cc lines 41 to 43;
  \<^item> \<open>WaiterTask lane index holder\<close>: Lane.cc lines 29 to 33;
  \<^item> \<open>RecursiveTask lane\<close>: Lane.cc lines 77 to 79.
\<close>

type_synonym hid = nat

datatype task =
    OutputTask nat hid
  | ProductReadyTask nat nat hid
  | WaiterTask nat nat hid
  | RecursiveTask nat

text \<open>
  The state shared by all copies of one \<open>TaskHolder\<close>: the reference count and the
  bound task. \<open>fired\<close> counts how often the task has been handed to the group; it
  is kept for the proofs and never read by the program.
\<close>

record cell =
  refs :: int
  job :: task
  fired :: nat

text \<open>What a run records, in the order it happens.\<close>

datatype event =
    Claimed nat nat
  | Sought nat nat
  | SeekFailed nat nat
  | GetIssued nat nat
  | Retrieved nat nat
  | WaitStarted nat nat
  | WaitEnded nat nat
  | ProductReady nat nat
  | OutputCalled nat
  | Collated nat

text \<open>
  The whole state of a run: the shared \<open>std::atomic<long>\<close> index, the heap of task
  cells, the tasks handed to \<open>tbb::task_group::run\<close> and not yet executed, the lanes
  whose \<open>processEventsAsync\<close> has not been called yet, the requests the event source
  holds (\<open>gotoEventAsync\<close> as lane and index, \<open>getAsync\<close> as lane, slot and holder),
  the holders the waiters keep until their delay is over, the operations in
  \<open>collateQueue_\<close> (lane, event identifier, callback), the event each lane is positioned
  at, and the sink. The index is a natural number: it starts at 0 and a run makes far
  fewer than \<open>2^63\<close> claims.
\<close>

record sys =
  counter :: nat
  cells :: "cell list"
  ready :: "task list"
  unstarted :: "nat list"
  seeks :: "(nat \<times> nat) list"
  gets :: "(nat \<times> nat \<times> hid) list"
  waits :: "(nat \<times> nat \<times> hid) list"
  queue :: "(nat \<times> EventIdentifier \<times> hid) list"
  position :: "nat \<Rightarrow> nat"
  out :: RNTupleOutputer
  trace :: "event list"

definition record_event :: "event \<Rightarrow> sys \<Rightarrow> sys" where
  "record_event e s = s\<lparr>trace := trace s @ [e]\<rparr>"

text \<open>
  Modelled from the spec: \<open>TaskHolder.h\<close> is not among the sources. Section 4.1 gives
  the contract: \<open>make(group, continuation)\<close> returns a token, \<open>clone\<close> increments the
  shared count, \<open>release\<close> decrements it and, if the resulting count is zero, schedules
  the continuation onto the group. A new token is the one reference to its cell
  (\<open>make_holder\<close>, as records have a \<open>make\<close> of their own).
\<close>

definition make_holder :: "task \<Rightarrow> sys \<Rightarrow> hid \<times> sys" where
  "make_holder t s = (length (cells s), s\<lparr>cells := cells s @ [\<lparr>refs = 1, job = t, fired = 0\<rparr>]\<rparr>)"

definition clone :: "hid \<Rightarrow> sys \<Rightarrow> sys" where
  "clone h s = s\<lparr>cells := (cells s)[h := (cells s ! h)\<lparr>refs := refs (cells s ! h) + 1\<rparr>]\<rparr>"

definition release :: "hid \<Rightarrow> sys \<Rightarrow> sys" where
  "release h s =
     (if h < length (cells s) then
        (let c = cells s ! h; n = refs c - 1
         in if n = 0
            then s\<lparr>cells := (cells s)[h := c\<lparr>refs := n, fired := fired c + 1\<rparr>],
                   ready := ready s @ [job c]\<rparr>
            else s\<lparr>cells := (cells s)[h := c\<lparr>refs := n\<rparr>]\<rparr>)
      else s)"

section \<open>The lanes (Lane.cc)\<close>

text \<open>
  What does not belong to a lane is a parameter of the run: the number of lanes, the
  data products the source has for each lane, the scale factor each lane is built with,
  the sink's answer to \<open>usesProductReadyAsync()\<close>, the source's
  \<open>mayBeAbleToGoToEvent\<close>, whether positioning a lane at an index succeeds, the
  identifier of the event at a position, and the object pointer stored at each storage
  address.
\<close>

record config =
  nLanes :: nat
  dataProducts :: "nat \<Rightarrow> DataProductRetriever list"
  scaleFactor :: "nat \<Rightarrow> real"
  usesProductReadyAsync :: bool
  mayBeAbleToGoToEvent :: "nat \<Rightarrow> bool"
  gotoEvent :: "nat \<Rightarrow> nat \<Rightarrow> bool"
  eventIdentifier :: "nat \<Rightarrow> EventIdentifier"
  deref :: "nat \<Rightarrow> nat"

text \<open>A waiter is built from its slot and the scale factor (line 14).\<close>

record Lane =
  laneIndex :: nat
  waiters :: "(nat \<times> real) list"

definition Lane_new :: "nat \<Rightarrow> DataProductRetriever list \<Rightarrow> real \<Rightarrow> Lane" where
  "Lane_new iIndex products iScaleFactor =
     \<lparr>laneIndex = iIndex,
      waiters = (if 0 \<le> iScaleFactor
                 then map (\<lambda>ib. (ib, iScaleFactor)) [0..<length products]
                 else [])\<rparr>"

definition laneOf :: "config \<Rightarrow> nat \<Rightarrow> Lane" where
  "laneOf cfg l = Lane_new l (dataProducts cfg l) (scaleFactor cfg l)"

text \<open>
  A function that takes a \<open>TaskHolder\<close> by value owns one reference; the caller makes
  the copy. Where the source copies a holder into a closure the count goes up, and
  where a by-value parameter dies it goes down. A returned parameter is moved.
\<close>

definition makeWaiterTask :: "Lane \<Rightarrow> nat \<Rightarrow> hid \<Rightarrow> sys \<Rightarrow> hid \<times> sys" where
  "makeWaiterTask L index holder s =
     (if waiters L = [] then (holder, s)
      else
        (let s1 = clone holder s;
             (w, s2) = make_holder (WaiterTask (laneIndex L) index holder) s1
         in (w, release holder s2)))"

definition makeTaskForDataProduct :: "config \<Rightarrow> Lane \<Rightarrow> nat \<Rightarrow> hid \<Rightarrow> sys \<Rightarrow> hid \<times> sys" where
  "makeTaskForDataProduct cfg L index holder s =
     (if usesProductReadyAsync cfg then
        (let s1 = clone holder s;
             (p, s2) = make_holder (ProductReadyTask (laneIndex L) index holder) s1;
             (t, s3) = makeWaiterTask L index p s2
         in (t, release holder s3))
      else
        (let s1 = clone holder s;
             (t, s2) = makeWaiterTask L index holder s1
         in (t, release holder s2)))"

text \<open>
  Modelled from the spec: \<open>DataProductRetriever::getAsync\<close> is not among the sources.
  Section 6: an asynchronous fill that is given a continuation. The source keeps the
  holder until the product is there and releases it then (the step \<open>GetDone\<close>).
\<close>

definition getAsync :: "nat \<Rightarrow> nat \<Rightarrow> hid \<Rightarrow> sys \<Rightarrow> sys" where
  "getAsync l index t s = record_event (GetIssued l index) (s\<lparr>gets := gets s @ [(l, index, t)]\<rparr>)"

text \<open>The loop of lines 61 to 65, over the data products from slot \<open>index\<close> on.\<close>

fun issueProducts ::
  "config \<Rightarrow> Lane \<Rightarrow> hid \<Rightarrow> nat \<Rightarrow> DataProductRetriever list \<Rightarrow> sys \<Rightarrow> sys" where
  "issueProducts cfg L holder index [] s = s"
| "issueProducts cfg L holder index (d # ds) s =
     (let s1 = clone holder s;
          (t, s2) = makeTaskForDataProduct cfg L index holder s1
      in issueProducts cfg L holder (Suc index) ds (getAsync (laneIndex L) index t s2))"

definition processEventAsync :: "config \<Rightarrow> Lane \<Rightarrow> hid \<Rightarrow> sys \<Rightarrow> sys" where
  "processEventAsync cfg L iCallback s =
     (let (holder, s1) = make_holder (OutputTask (laneIndex L) iCallback) s;
          s2 = issueProducts cfg L holder 0 (dataProducts cfg (laneIndex L)) s1
      in release holder s2)"

text \<open>
  Modelled from the spec: \<open>SharedSourceBase::gotoEventAsync\<close> is not among the sources.
  Section 6: it positions the lane at the index asynchronously and invokes the
  continuation on completion; a failure to position is no more work for the lane. The
  request stays with the source until the step \<open>SeekDone\<close>.
\<close>

definition gotoEventAsync :: "nat \<Rightarrow> nat \<Rightarrow> sys \<Rightarrow> sys" where
  "gotoEventAsync l presentIndex s =
     record_event (Sought l presentIndex) (s\<lparr>seeks := seeks s @ [(l, presentIndex)]\<rparr>)"

definition doNextEvent :: "config \<Rightarrow> Lane \<Rightarrow> sys \<Rightarrow> sys" where
  "doNextEvent cfg L s =
     (let presentIndex = counter s;
          s1 = record_event (Claimed (laneIndex L) presentIndex) (s\<lparr>counter := counter s + 1\<rparr>)
      in if mayBeAbleToGoToEvent cfg presentIndex
         then gotoEventAsync (laneIndex L) presentIndex s1
         else s1)"

definition processEventsAsync :: "config \<Rightarrow> Lane \<Rightarrow> sys \<Rightarrow> sys" where
  "processEventsAsync cfg L s = doNextEvent cfg L s"

text \<open>The body of \<open>processEventTask\<close>, lines 76 to 81.\<close>

definition processEventTask :: "config \<Rightarrow> Lane \<Rightarrow> sys \<Rightarrow> sys" where
  "processEventTask cfg L s =
     (let (recursiveTask, s1) = make_holder (RecursiveTask (laneIndex L)) s
      in processEventAsync cfg L recursiveTask s1)"

text \<open>
  \<open>RNTupleOutputer::productReadyAsync\<close> (lines 77 and 78) has an empty body: its
  by-value callback dies on return. \<open>RNTupleOutputer::outputAsync\<close> moves its callback
  into the operation it pushes onto \<open>collateQueue_\<close>.
\<close>

definition productReadyAsync :: "nat \<Rightarrow> nat \<Rightarrow> hid \<Rightarrow> sys \<Rightarrow> sys" where
  "productReadyAsync iLaneIndex iDataProduct iCallback s = release iCallback s"

definition outputAsync :: "nat \<Rightarrow> EventIdentifier \<Rightarrow> hid \<Rightarrow> sys \<Rightarrow> sys" where
  "outputAsync iLaneIndex iEventID iCallback s =
     s\<lparr>queue := queue s @ [(iLaneIndex, iEventID, iCallback)]\<rparr>"

text \<open>
  Modelled from the spec: \<open>Waiter::waitAsync\<close> is not among the sources. Section 4.4:
  an enabled waiter schedules the continuation only after its delay has elapsed. The
  waiter keeps the holder until then (the step \<open>WaitDone\<close>); the length of the delay is
  not modelled.
\<close>

definition waitAsync :: "nat \<Rightarrow> nat \<Rightarrow> hid \<Rightarrow> sys \<Rightarrow> sys" where
  "waitAsync l index holder s =
     record_event (WaitStarted l index) (s\<lparr>waits := waits s @ [(l, index, holder)]\<rparr>)"

text \<open>
  \<open>collateProducts\<close> (lines 103 to 125): the entry is filled and the callback is
  released when the parameter dies.
\<close>

definition collateProducts ::
  "(nat \<Rightarrow> nat) \<Rightarrow> EventIdentifier \<Rightarrow> nat list \<Rightarrow> hid \<Rightarrow> sys \<Rightarrow> error + sys" where
  "collateProducts mem iEventID entry iCallback s =
     (case fillEntry mem iEventID entry (out s) of
        Inl e \<Rightarrow> Inl e
      | Inr o' \<Rightarrow> Inr (release iCallback (s\<lparr>out := o'\<rparr>)))"

text \<open>
  Running a task: the closure's body, then the closure dies and with it the holder it
  captured. The closures are not \<open>mutable\<close>, so \<open>std::move\<close> of a captured holder
  copies it.
\<close>

fun execute :: "config \<Rightarrow> task \<Rightarrow> sys \<Rightarrow> sys" where
  "execute cfg (RecursiveTask l) s = doNextEvent cfg (laneOf cfg l) s"
| "execute cfg (OutputTask l callback) s =
     release callback
       (outputAsync l (eventIdentifier cfg (position s l)) callback
          (clone callback (record_event (OutputCalled l) s)))"
| "execute cfg (ProductReadyTask l index holder) s =
     release holder
       (productReadyAsync l index holder (clone holder (record_event (ProductReady l index) s)))"
| "execute cfg (WaiterTask l index holder) s =
     release holder (waitAsync l index holder (clone holder s))"

section \<open>Runs\<close>

text \<open>
  A run is a sequence of steps, each atomic: a lane is started, the source finishes
  positioning a lane or filling a product, a waiter's delay ends, a worker executes one
  of the tasks the group holds, or the collate queue executes its oldest operation. Any
  order of the steps that are possible is a run, which is how the threads of the
  program interleave at the level of whole tasks. \<open>None\<close> is a step that is not
  possible, or one at which the program stops with an error.
\<close>

datatype action = Start nat | SeekDone nat | GetDone nat | WaitDone nat | Run nat | Collate

definition remove_nth :: "nat \<Rightarrow> 'a list \<Rightarrow> 'a list" where
  "remove_nth i xs = take i xs @ drop (Suc i) xs"

fun step :: "config \<Rightarrow> action \<Rightarrow> sys \<Rightarrow> sys option" where
  "step cfg (Start i) s =
     (if i < length (unstarted s)
      then Some (processEventsAsync cfg (laneOf cfg (unstarted s ! i))
                   (s\<lparr>unstarted := remove_nth i (unstarted s)\<rparr>))
      else None)"
| "step cfg (SeekDone i) s =
     (if i < length (seeks s) then
        (let (l, presentIndex) = seeks s ! i;
             s1 = s\<lparr>seeks := remove_nth i (seeks s)\<rparr>
         in if gotoEvent cfg l presentIndex
            then Some (processEventTask cfg (laneOf cfg l)
                         (s1\<lparr>position := (position s1)(l := presentIndex)\<rparr>))
            else Some (record_event (SeekFailed l presentIndex) s1))
      else None)"
| "step cfg (GetDone i) s =
     (if i < length (gets s) then
        (let (l, index, holder) = gets s ! i
         in Some (release holder
                    (record_event (Retrieved l index) (s\<lparr>gets := remove_nth i (gets s)\<rparr>))))
      else None)"
| "step cfg (WaitDone i) s =
     (if i < length (waits s) then
        (let (l, index, holder) = waits s ! i
         in Some (release holder
                    (record_event (WaitEnded l index) (s\<lparr>waits := remove_nth i (waits s)\<rparr>))))
      else None)"
| "step cfg (Run i) s =
     (if i < length (ready s)
      then Some (execute cfg (ready s ! i) (s\<lparr>ready := remove_nth i (ready s)\<rparr>))
      else None)"
| "step cfg Collate s =
     (case queue s of
        [] \<Rightarrow> None
      | (l, iEventID, callback) # rest \<Rightarrow>
          (if l < length (entries (out s)) then
             (case collateProducts (deref cfg) iEventID (entries (out s) ! l) callback
                     (s\<lparr>queue := rest\<rparr>) of
                Inl e \<Rightarrow> None
              | Inr s' \<Rightarrow> Some (record_event (Collated l) s'))
           else None))"

fun exec :: "config \<Rightarrow> action list \<Rightarrow> sys \<Rightarrow> sys option" where
  "exec cfg [] s = Some s"
| "exec cfg (a # as) s = (case step cfg a s of None \<Rightarrow> None | Some s' \<Rightarrow> exec cfg as s')"

definition init :: "config \<Rightarrow> RNTupleOutputer \<Rightarrow> sys" where
  "init cfg o0 =
     \<lparr>counter = 0, cells = [], ready = [], unstarted = [0..<nLanes cfg], seeks = [], gets = [],
      waits = [], queue = [], position = (\<lambda>l. 0), out = o0, trace = []\<rparr>"

text \<open>Nothing is left to do: every lane has been started and nothing is pending.\<close>

definition final :: "sys \<Rightarrow> bool" where
  "final s = (unstarted s = [] \<and> seeks s = [] \<and> gets s = [] \<and> waits s = [] \<and> ready s = []
              \<and> queue s = [])"

section \<open>Accounting of the holders\<close>

text \<open>
  The definitions below serve the proofs. \<open>captured\<close> is the holder a closure keeps,
  \<open>held\<close> collects every holder that is alive between two steps: those the source,
  the waiters and the collate queue keep, and those captured by the tasks that have
  not run yet (tasks the group holds, and tasks of cells that have not fired).
  \<open>acct s L\<close> says that the reference count of every cell is the number of holders
  to it in \<open>held s\<close> and in the local holders \<open>L\<close> of the code that is running,
  and that a cell has fired once if its count is zero and not at all otherwise.
\<close>

fun captured :: "task \<Rightarrow> hid multiset" where
  "captured (OutputTask l callback) = {#callback#}"
| "captured (ProductReadyTask l index holder) = {#holder#}"
| "captured (WaiterTask l index holder) = {#holder#}"
| "captured (RecursiveTask l) = {#}"

definition live_captured :: "cell \<Rightarrow> hid multiset" where
  "live_captured c = (if fired c = 0 then captured (job c) else {#})"

definition held :: "sys \<Rightarrow> hid multiset" where
  "held s =
     mset (map (\<lambda>(l, index, h). h) (gets s)) + mset (map (\<lambda>(l, index, h). h) (waits s))
     + mset (map (\<lambda>(l, e, h). h) (queue s))
     + sum_list (map captured (ready s)) + sum_list (map live_captured (cells s))"

definition rc :: "sys \<Rightarrow> hid \<Rightarrow> int" where
  "rc s h = (if h < length (cells s) then refs (cells s ! h) else 0)"

definition cell_ok :: "cell \<Rightarrow> bool" where
  "cell_ok c = (if fired c = 0 then 1 \<le> refs c else fired c = 1 \<and> refs c = 0)"

definition acct :: "sys \<Rightarrow> hid multiset \<Rightarrow> bool" where
  "acct s L = ((\<forall>h. int (count (held s + L) h) = rc s h) \<and> (\<forall>c \<in> set (cells s). cell_ok c))"

section \<open>A small configuration\<close>

text \<open>
  Two data products per lane, neither named \<open>EventAuxiliary\<close>; a ROOT that accepts
  every field and every file; a source bounded at \<open>M\<close> events. The theorems below are
  instantiated with it.
\<close>

definition exProducts :: "DataProductRetriever list" where
  "exProducts =
     [\<lparr>name = ''hits.data'', classType = ''std::vector<int>'', address = 100\<rparr>,
      \<lparr>name = ''tracks'', classType = ''std::vector<float>'', address = 200\<rparr>]"

definition exRoot :: ROOT where
  "exRoot = \<lparr>createField = (\<lambda>model n t. True), recreate = (\<lambda>file. True)\<rparr>"

definition exEvent :: EventIdentifier where
  "exEvent = \<lparr>run = 1, lumi = 1, event = 42\<rparr>"

definition exSink :: RNTupleOutputer where
  "exSink =
     \<lparr>fileName = ''out.root'', entries = [[100, 200], [100, 200]],
      fieldIDs = [''hits'', ''tracks'', ''EventID''],
      idPtr = Some \<lparr>run = 0, lumi = 0, event = 0\<rparr>,
      ntuple = Some \<lparr>modelFields = [(''hits'', ''std::vector<int>''),
                                      (''tracks'', ''std::vector<float>''),
                                      (''EventID'', ''cce::tf::EventIdentifier'')],
                      writerFile = ''out.root'', filled = []\<rparr>,
      eventGlobalOffset = 0\<rparr>"

definition exConfig :: "nat \<Rightarrow> nat \<Rightarrow> bool \<Rightarrow> real \<Rightarrow> config" where
  "exConfig N M uses scale =
     \<lparr>nLanes = N, dataProducts = (\<lambda>l. exProducts), scaleFactor = (\<lambda>l. scale),
      usesProductReadyAsync = uses, mayBeAbleToGoToEvent = (\<lambda>i. i < M),
      gotoEvent = (\<lambda>l i. i < M),
      eventIdentifier = (\<lambda>i. \<lparr>run = 1, lumi = 1, event = i\<rparr>),
      deref = (\<lambda>a. a + 1)\<rparr>"

section \<open>Properties of the output sink\<close>

lemma bindStorage_eq:
  "bindStorage L dps s =
     (if dps = [] then Inr s
      else if L < length (entries s)
      then Inr (s\<lparr>entries := (entries s)[L := entries s ! L @ map address dps]\<rparr>)
      else Inl IndexOutOfRange)"
proof (induction dps arbitrary: s)
  case Nil
  show ?case by simp
next
  case (Cons dp dps)
  show ?case
  proof (cases "L < length (entries s)")
    case True
    then show ?thesis by (cases "dps = []") (simp_all add: Cons.IH)
  next
    case False
    then show ?thesis by simp
  qed
qed

lemma bindStorage_not_order: "bindStorage L dps s \<noteq> Inl SetupNotSequential"
  by (simp add: bindStorage_eq)

lemma createFields_not_order: "createFields R dps st \<noteq> Inl SetupNotSequential"
proof (induction dps arbitrary: st)
  case Nil
  show ?case by simp
next
  case (Cons dp dps)
  obtain has model fids where st: "st = (has, model, fids)" by (cases st) auto
  show ?case using Cons.IH by (simp add: st Let_def)
qed

text \<open>
  C5. \<open>setupForLane\<close> throws its setup-order error (the \<open>std::logic_error\<close>
  "setupForLane should be sequential") exactly when the lane index is not 0 and
  \<open>ntuple_\<close> has not been initialised; for lane 0, and for any lane once \<open>ntuple_\<close> is
  set, the call does not raise it.
\<close>

theorem setupForLane_order_error_iff:
  "(setupForLane R iLaneIndex iDPs s = Inl SetupNotSequential)
     = (iLaneIndex \<noteq> 0 \<and> ntuple s = None)"
proof (cases "iLaneIndex = 0")
  case True
  show ?thesis
  proof (cases "createFields R iDPs (False, [], fieldIDs s)")
    case (Inl e)
    with createFields_not_order [of R iDPs "(False, [], fieldIDs s)"] True
    show ?thesis by (simp add: setupForLane_def)
  next
    case (Inr st)
    obtain has model fids where st: "st = (has, model, fids)" by (cases st) auto
    show ?thesis using True Inr st
      by (simp add: setupForLane_def Let_def bindStorage_not_order)
  qed
next
  case False
  then show ?thesis by (simp add: setupForLane_def bindStorage_not_order)
qed

text \<open>
  C8. A call for a lane other than 0, made once \<open>ntuple_\<close> is initialised and with a
  lane index inside \<open>entries_\<close>, succeeds and changes nothing but \<open>entries_[L]\<close>: the
  storage addresses of the data products are appended there in slot order, and
  \<open>ntuple_\<close>, \<open>fieldIDs_\<close>, \<open>id_\<close> and the entries of every other lane stay as they
  were.
\<close>

theorem setupForLane_other_lane_frame:
  assumes "L \<noteq> 0" and "ntuple s \<noteq> None" and "L < length (entries s)"
  shows "\<exists>s'. setupForLane R L iDPs s = Inr s'
           \<and> s' = s\<lparr>entries := (entries s)[L := entries s ! L @ map address iDPs]\<rparr>
           \<and> entries s' ! L = entries s ! L @ map address iDPs
           \<and> length (entries s') = length (entries s)
           \<and> (\<forall>l. l \<noteq> L \<longrightarrow> entries s' ! l = entries s ! l)
           \<and> ntuple s' = ntuple s \<and> fieldIDs s' = fieldIDs s \<and> idPtr s' = idPtr s
           \<and> eventGlobalOffset s' = eventGlobalOffset s \<and> fileName s' = fileName s"
proof -
  have "setupForLane R L iDPs s = bindStorage L iDPs s"
    using assms by (auto simp: setupForLane_def)
  also have "\<dots> = Inr (s\<lparr>entries := (entries s)[L := entries s ! L @ map address iDPs]\<rparr>)"
    using assms(3) by (cases "iDPs = []") (simp_all add: bindStorage_eq)
  finally show ?thesis using assms(3) by simp
qed

lemma createFields_eq:
  "createFields R dps (has, model, fids) = Inr (has', model', fids') \<Longrightarrow>
     has' = (has \<or> ''EventAuxiliary'' \<in> set (map name dps))
     \<and> model' = model @ map (\<lambda>dp. (chopName (name dp), classType dp)) dps
     \<and> fids' = fids @ map (\<lambda>dp. chopName (name dp)) dps"
proof (induction dps arbitrary: has model fids)
  case Nil
  then show ?case by simp
next
  case (Cons dp dps)
  from Cons.prems have ok: "createField R model (chopName (name dp)) (classType dp)"
    by (auto simp: Let_def split: if_splits)
  with Cons.prems have
    "createFields R dps (has \<or> name dp = ''EventAuxiliary'',
        model @ [(chopName (name dp), classType dp)], fids @ [chopName (name dp)])
      = Inr (has', model', fids')"
    by (simp add: Let_def)
  from Cons.IH [OF this] show ?case by auto
qed

lemma bindProducts_eq:
  "bindProducts mem fids ptrs i rentry =
     (if ptrs = [] \<or> i + length ptrs \<le> length fids
      then Inr (rentry @ zip (take (length ptrs) (drop i fids)) (map (\<lambda>p. ProductPtr (mem p)) ptrs))
      else Inl IndexOutOfRange)"
proof (induction ptrs arbitrary: i rentry)
  case Nil
  show ?case by simp
next
  case (Cons ptr ptrs)
  show ?case
  proof (cases "i < length fids")
    case True
    then have d: "drop i fids = fids ! i # drop (Suc i) fids"
      by (simp add: Cons_nth_drop_Suc)
    show ?thesis using True by (auto simp: Cons.IH d)
  next
    case False
    then show ?thesis by simp
  qed
qed

text \<open>
  C9. In the call for lane 0 the field \<open>EventID\<close> is appended after the fields of the
  data products, and \<open>id_\<close> is allocated, exactly when no data product has the name
  \<open>EventAuxiliary\<close>; with such a product the model has the product fields only and
  \<open>id_\<close> stays as it was. Every \<open>collateProducts\<close> that returns has bound the
  products to their fields in slot order and, exactly when \<open>id_\<close> is allocated, has
  copied the event identifier into it and bound it to \<open>EventID\<close> as the last field of
  the entry it fills.
\<close>

theorem eventID_field_and_binding:
  "(setupForLane R 0 iDPs s = Inr s' \<longrightarrow>
      fieldIDs s' = fieldIDs s @ map (\<lambda>dp. chopName (name dp)) iDPs
                    @ (if ''EventAuxiliary'' \<in> set (map name iDPs) then [] else [''EventID''])
      \<and> map_option modelFields (ntuple s')
          = Some (map (\<lambda>dp. (chopName (name dp), classType dp)) iDPs
                  @ (if ''EventAuxiliary'' \<in> set (map name iDPs) then [] else [eventIDField]))
      \<and> idPtr s' = (if ''EventAuxiliary'' \<in> set (map name iDPs) then idPtr s
                     else Some \<lparr>run = 0, lumi = 0, event = 0\<rparr>))
   \<and> (fillEntry mem iEventID ptrs t = Inr t' \<longrightarrow>
        (\<exists>w. ntuple t = Some w
           \<and> map_option filled (ntuple t')
              = Some (filled w @ [zip (take (length ptrs) (fieldIDs t)) (map (\<lambda>p. ProductPtr (mem p)) ptrs)
                                  @ (if idPtr t \<noteq> None then [(''EventID'', EventIDPtr iEventID)] else [])]))
        \<and> idPtr t' = (if idPtr t \<noteq> None then Some iEventID else None))"
proof (intro conjI impI)
  assume a: "setupForLane R 0 iDPs s = Inr s'"
  then obtain has model fids where
    c: "createFields R iDPs (False, [], fieldIDs s) = Inr (has, model, fids)"
    by (auto simp: setupForLane_def split: sum.splits)
  from createFields_eq [OF c] have
    h: "has = (''EventAuxiliary'' \<in> set (map name iDPs))" and
    m: "model = map (\<lambda>dp. (chopName (name dp), classType dp)) iDPs" and
    f: "fids = fieldIDs s @ map (\<lambda>dp. chopName (name dp)) iDPs"
    by auto
  let ?s1 = "if \<not> has then s\<lparr>fieldIDs := fids @ [fst eventIDField],
                 idPtr := Some \<lparr>run = 0, lumi = 0, event = 0\<rparr>\<rparr> else s\<lparr>fieldIDs := fids\<rparr>"
  let ?m1 = "if \<not> has then model @ [eventIDField] else model"
  let ?s2 = "?s1\<lparr>ntuple := Some \<lparr>modelFields = ?m1, writerFile = fileName s, filled = []\<rparr>\<rparr>"
  from a c have b: "bindStorage 0 iDPs ?s2 = Inr s'"
    by (simp add: setupForLane_def Let_def split: if_splits)
  then have s': "s' = ?s2 \<or> s' = ?s2\<lparr>entries := (entries ?s2)[0 := entries ?s2 ! 0 @ map address iDPs]\<rparr>"
    by (simp add: bindStorage_eq split: if_splits)
  show "fieldIDs s' = fieldIDs s @ map (\<lambda>dp. chopName (name dp)) iDPs
                    @ (if ''EventAuxiliary'' \<in> set (map name iDPs) then [] else [''EventID''])"
    using s' h f by (auto simp: eventIDField_def)
  show "map_option modelFields (ntuple s')
          = Some (map (\<lambda>dp. (chopName (name dp), classType dp)) iDPs
                  @ (if ''EventAuxiliary'' \<in> set (map name iDPs) then [] else [eventIDField]))"
    using s' h m by auto
  show "idPtr s' = (if ''EventAuxiliary'' \<in> set (map name iDPs) then idPtr s
                     else Some \<lparr>run = 0, lumi = 0, event = 0\<rparr>)"
    using s' h by auto
next
  assume a: "fillEntry mem iEventID ptrs t = Inr t'"
  then obtain w where w: "ntuple t = Some w"
    by (auto simp: fillEntry_def split: option.splits)
  from a w obtain rentry where r: "bindProducts mem (fieldIDs t) ptrs 0 [] = Inr rentry"
    by (auto simp: fillEntry_def split: sum.splits)
  then have re: "rentry = zip (take (length ptrs) (fieldIDs t)) (map (\<lambda>p. ProductPtr (mem p)) ptrs)"
    by (simp add: bindProducts_eq split: if_splits)
  show "\<exists>w. ntuple t = Some w
           \<and> map_option filled (ntuple t')
              = Some (filled w @ [zip (take (length ptrs) (fieldIDs t)) (map (\<lambda>p. ProductPtr (mem p)) ptrs)
                                  @ (if idPtr t \<noteq> None then [(''EventID'', EventIDPtr iEventID)] else [])])"
    using a w r re by (auto simp: fillEntry_def Let_def eventIDField_def)
  show "idPtr t' = (if idPtr t \<noteq> None then Some iEventID else None)"
    using a w r by (auto simp: fillEntry_def Let_def)
qed

theorem eventID_field_and_binding_witness:
  "\<exists>s' t'. setupForLane exRoot 0 exProducts (RNTupleOutputer_new ''out.root'' 2) = Inr s'
      \<and> fieldIDs s' = [''hits'', ''tracks'', ''EventID'']
      \<and> idPtr s' = Some \<lparr>run = 0, lumi = 0, event = 0\<rparr>
      \<and> fillEntry (\<lambda>a. a + 1) exEvent [100, 200] s' = Inr t'
      \<and> idPtr t' = Some exEvent
      \<and> map_option filled (ntuple t')
          = Some [[(''hits'', ProductPtr 101), (''tracks'', ProductPtr 201),
                   (''EventID'', EventIDPtr exEvent)]]"
proof -
  obtain s' where 1: "setupForLane exRoot 0 exProducts (RNTupleOutputer_new ''out.root'' 2) = Inr s'"
    by (simp add: setupForLane_def exRoot_def exProducts_def RNTupleOutputer_new_def Let_def
        chopName_def eventIDField_def)
  have 0: "fieldIDs (RNTupleOutputer_new ''out.root'' 2) = []"
          "idPtr (RNTupleOutputer_new ''out.root'' 2) = None"
    by (simp_all add: RNTupleOutputer_new_def)
  have f: "fieldIDs s' = [''hits'', ''tracks'', ''EventID'']"
    and i: "idPtr s' = Some \<lparr>run = 0, lumi = 0, event = 0\<rparr>"
    and n: "map_option modelFields (ntuple s')
             = Some [(''hits'', ''std::vector<int>''), (''tracks'', ''std::vector<float>''),
                     eventIDField]"
    using eventID_field_and_binding [of exRoot exProducts "RNTupleOutputer_new ''out.root'' 2" s']
      1 0 by (simp_all add: exProducts_def chopName_def)
  from n obtain w where w: "ntuple s' = Some w" by (cases "ntuple s'") auto
  obtain t' where 2: "fillEntry (\<lambda>a. a + 1) exEvent [100, 200] s' = Inr t'"
    using w f by (simp add: fillEntry_def Let_def)
  have fl: "filled w = []"
    using 1 w
    by (auto simp: setupForLane_def exRoot_def exProducts_def RNTupleOutputer_new_def Let_def
        chopName_def eventIDField_def)
  show ?thesis
    using eventID_field_and_binding [of exRoot exProducts "RNTupleOutputer_new ''out.root'' 2" s'
        "\<lambda>a. a + 1" exEvent "[100, 200]" s' t'] 1 2 f i w fl
    by simp
qed

text \<open>The example sink is what the two setup calls of a two-lane run leave.\<close>

lemma exSink_setup:
  "setupForLane exRoot 0 exProducts (RNTupleOutputer_new ''out.root'' 2) = Inr s1 \<Longrightarrow>
   setupForLane exRoot 1 exProducts s1 = Inr exSink"
  by (auto simp: setupForLane_def exRoot_def exProducts_def RNTupleOutputer_new_def Let_def
      chopName_def eventIDField_def exSink_def eval_nat_numeral)

theorem setupForLane_other_lane_frame_witness:
  "\<exists>s'. setupForLane exRoot 1 exProducts (exSink\<lparr>entries := [[100, 200], []]\<rparr>) = Inr s'
      \<and> entries s' = [[100, 200], [100, 200]]
      \<and> ntuple s' = ntuple exSink \<and> fieldIDs s' = fieldIDs exSink \<and> idPtr s' = idPtr exSink"
proof -
  have "(1::nat) \<noteq> 0" "ntuple (exSink\<lparr>entries := [[100, 200], []]\<rparr>) \<noteq> None"
    "1 < length (entries (exSink\<lparr>entries := [[100, 200], []]\<rparr>))"
    by (simp_all add: exSink_def)
  from setupForLane_other_lane_frame [OF this, of exRoot exProducts]
  show ?thesis by (auto simp: exProducts_def)
qed

section \<open>The wait stage and the product-ready hook\<close>

text \<open>
  C6. A lane built with a negative scale factor has no waiters, and then
  \<open>makeWaiterTask\<close> is the identity: it returns the holder it was given and leaves
  the state as it is, so nothing stands between the product and its continuation.
\<close>

theorem disabled_waiter_identity:
  assumes "iScaleFactor < 0"
  shows "waiters (Lane_new iIndex products iScaleFactor) = []
         \<and> makeWaiterTask (Lane_new iIndex products iScaleFactor) index holder s = (holder, s)"
  using assms by (simp add: Lane_new_def makeWaiterTask_def)

theorem disabled_waiter_identity_witness:
  "(-1::real) < 0 \<and> waiters (Lane_new 0 exProducts (-1)) = []
   \<and> makeWaiterTask (Lane_new 0 exProducts (-1)) 1 5 (init (exConfig 1 2 False (-1)) exSink)
       = (5, init (exConfig 1 2 False (-1)) exSink)"
proof -
  have h: "(-1::real) < 0" by simp
  show ?thesis
    using h disabled_waiter_identity [OF h, of 0 exProducts 1 5 "init (exConfig 1 2 False (-1)) exSink"]
    by simp
qed

section \<open>Reference counts are the holders alive\<close>

lemma sum_list_map_update:
  fixes f :: "'a \<Rightarrow> 'b multiset"
  shows "h < length xs \<Longrightarrow> sum_list (map f (xs[h := y])) + f (xs ! h) = sum_list (map f xs) + f y"
proof (induction xs arbitrary: h)
  case Nil
  then show ?case by simp
next
  case (Cons x xs)
  show ?case
  proof (cases h)
    case 0
    then show ?thesis by simp
  next
    case (Suc k)
    with Cons.prems have "k < length xs" by simp
    from Cons.IH [OF this] show ?thesis using Suc by (simp add: ac_simps)
  qed
qed

lemma sum_list_map_remove_nth:
  fixes f :: "'a \<Rightarrow> 'b multiset"
  assumes "i < length xs"
  shows "sum_list (map f (remove_nth i xs)) + f (xs ! i) = sum_list (map f xs)"
proof -
  have "xs = take i xs @ xs ! i # drop (Suc i) xs"
    using assms by (rule id_take_nth_drop)
  then have "sum_list (map f xs) = sum_list (map f (take i xs @ xs ! i # drop (Suc i) xs))"
    by simp
  then show ?thesis by (simp add: remove_nth_def ac_simps)
qed

lemma mset_map_remove_nth:
  assumes "i < length xs"
  shows "add_mset (f (xs ! i)) (mset (map f (remove_nth i xs))) = mset (map f xs)"
proof -
  have "xs = take i xs @ xs ! i # drop (Suc i) xs"
    using assms by (rule id_take_nth_drop)
  then have "mset (map f xs) = mset (map f (take i xs @ xs ! i # drop (Suc i) xs))"
    by simp
  then show ?thesis by (simp add: remove_nth_def)
qed

lemma nth_upd: "(xs[i := x]) ! j = (if i = j \<and> i < length xs then x else xs ! j)"
  by (cases "i < length xs") (simp_all add: nth_list_update list_update_beyond)

lemma map_update_same: "f y = f (xs ! h) \<Longrightarrow> map f (xs[h := y]) = map f xs"
  by (rule nth_equalityI) (auto simp: nth_upd)

lemma release_frame [simp]:
  "counter (release h s) = counter s" "unstarted (release h s) = unstarted s"
  "seeks (release h s) = seeks s" "gets (release h s) = gets s" "waits (release h s) = waits s"
  "queue (release h s) = queue s" "position (release h s) = position s"
  "out (release h s) = out s" "trace (release h s) = trace s"
  "length (cells (release h s)) = length (cells s)"
  "map job (cells (release h s)) = map job (cells s)"
  by (simp_all add: release_def Let_def map_update_same)

lemma clone_frame [simp]:
  "counter (clone h s) = counter s" "unstarted (clone h s) = unstarted s"
  "seeks (clone h s) = seeks s" "gets (clone h s) = gets s" "waits (clone h s) = waits s"
  "queue (clone h s) = queue s" "position (clone h s) = position s"
  "out (clone h s) = out s" "trace (clone h s) = trace s" "ready (clone h s) = ready s"
  "length (cells (clone h s)) = length (cells s)"
  "map job (cells (clone h s)) = map job (cells s)"
  "map fired (cells (clone h s)) = map fired (cells s)"
  by (simp_all add: clone_def map_update_same)

lemma make_holder_frame [simp]:
  "counter (snd (make_holder t s)) = counter s" "unstarted (snd (make_holder t s)) = unstarted s"
  "seeks (snd (make_holder t s)) = seeks s" "gets (snd (make_holder t s)) = gets s"
  "waits (snd (make_holder t s)) = waits s" "queue (snd (make_holder t s)) = queue s"
  "position (snd (make_holder t s)) = position s" "out (snd (make_holder t s)) = out s"
  "trace (snd (make_holder t s)) = trace s" "ready (snd (make_holder t s)) = ready s"
  "fst (make_holder t s) = length (cells s)"
  "cells (snd (make_holder t s)) = cells s @ [\<lparr>refs = 1, job = t, fired = 0\<rparr>]"
  by (simp_all add: make_holder_def)

lemma record_event_frame [simp]:
  "counter (record_event e s) = counter s" "unstarted (record_event e s) = unstarted s"
  "seeks (record_event e s) = seeks s" "gets (record_event e s) = gets s"
  "waits (record_event e s) = waits s" "queue (record_event e s) = queue s"
  "position (record_event e s) = position s" "out (record_event e s) = out s"
  "trace (record_event e s) = trace s @ [e]" "ready (record_event e s) = ready s"
  "cells (record_event e s) = cells s"
  by (simp_all add: record_event_def)

lemma ready_release:
  "ready (release h s) =
     ready s @ (if h < length (cells s) \<and> refs (cells s ! h) = 1 then [job (cells s ! h)] else [])"
  by (simp add: release_def Let_def)

lemma cells_clone_nth:
  "cells (clone h s) ! k = (if k = h \<and> h < length (cells s)
                            then (cells s ! k)\<lparr>refs := refs (cells s ! k) + 1\<rparr> else cells s ! k)"
  by (auto simp: clone_def nth_upd)

lemma cells_release_nth:
  "cells (release h s) ! k =
     (if k = h \<and> h < length (cells s)
      then (if refs (cells s ! k) = 1
            then (cells s ! k)\<lparr>refs := 0, fired := fired (cells s ! k) + 1\<rparr>
            else (cells s ! k)\<lparr>refs := refs (cells s ! k) - 1\<rparr>)
      else cells s ! k)"
  by (auto simp: release_def Let_def nth_upd)

lemma rc_clone: "h < length (cells s) \<Longrightarrow> rc (clone h s) = (rc s)(h := rc s h + 1)"
  by (auto simp: rc_def clone_def fun_eq_iff nth_list_update)

lemma rc_release: "h < length (cells s) \<Longrightarrow> rc (release h s) = (rc s)(h := rc s h - 1)"
  by (auto simp: rc_def release_def Let_def fun_eq_iff nth_list_update)

lemma live_captured_clone: "map live_captured (cells (clone h s)) = map live_captured (cells s)"
  by (rule nth_equalityI) (auto simp: cells_clone_nth live_captured_def)

lemma held_clone [simp]: "held (clone h s) = held s"
  by (simp add: held_def live_captured_clone)

lemma held_record_event [simp]: "held (record_event e s) = held s"
  by (simp add: held_def)

lemma acct_clone:
  assumes "acct s L" and "h \<in># held s + L"
  shows "acct (clone h s) (add_mset h L)"
proof -
  from assms have cnt: "1 \<le> rc s h"
    unfolding acct_def by (metis count_greater_eq_one_iff of_nat_1 of_nat_le_iff)
  then have h: "h < length (cells s)" by (auto simp: rc_def split: if_splits)
  have ok: "\<forall>c \<in> set (cells (clone h s)). cell_ok c"
  proof
    fix c assume "c \<in> set (cells (clone h s))"
    then obtain k where k: "k < length (cells s)" "c = cells (clone h s) ! k"
      by (metis clone_frame(11) in_set_conv_nth)
    have "cell_ok (cells s ! k)" using assms(1) k(1) by (simp add: acct_def)
    then show "cell_ok c" using k cnt h
      by (auto simp: cells_clone_nth cell_ok_def rc_def split: if_splits)
  qed
  have "int (count (held s + add_mset h L) k) = ((rc s)(h := rc s h + 1)) k" for k
  proof -
    have "int (count (held s + L) k) = rc s k" using assms(1) by (simp add: acct_def)
    then show ?thesis by (cases "k = h") simp_all
  qed
  then show ?thesis using ok by (simp add: acct_def rc_clone [OF h])
qed

lemma held_release:
  assumes "h < length (cells s)" and "fired (cells s ! h) = 0"
  shows "held (release h s) = held s"
proof (cases "refs (cells s ! h) - 1 = 0")
  case True
  let ?c = "cells s ! h"
  have "sum_list (map live_captured ((cells s)[h := ?c\<lparr>refs := 0, fired := Suc 0\<rparr>])) + live_captured ?c
        = sum_list (map live_captured (cells s)) + live_captured (?c\<lparr>refs := 0, fired := Suc 0\<rparr>)"
    using assms(1) by (rule sum_list_map_update)
  then have "sum_list (map live_captured ((cells s)[h := ?c\<lparr>refs := 0, fired := Suc 0\<rparr>])) + captured (job ?c)
        = sum_list (map live_captured (cells s))"
    using assms(2) by (simp add: live_captured_def)
  then show ?thesis using True assms
    by (simp add: held_def release_def Let_def ac_simps)
next
  case False
  have "map live_captured (cells (release h s)) = map live_captured (cells s)"
    by (rule nth_equalityI) (use False assms in \<open>auto simp: cells_release_nth live_captured_def\<close>)
  then show ?thesis using False assms by (simp add: held_def ready_release)
qed

lemma acct_release:
  assumes "acct s (add_mset h L)"
  shows "acct (release h s) L"
proof -
  from assms have cnt: "1 \<le> rc s h"
    unfolding acct_def
    by (metis count_greater_eq_one_iff of_nat_1 of_nat_le_iff union_iff union_single_eq_member add_mset_add_single)
  then have h: "h < length (cells s)" by (auto simp: rc_def split: if_splits)
  have okh: "cell_ok (cells s ! h)" using assms h by (simp add: acct_def)
  with cnt h have f0: "fired (cells s ! h) = 0" by (auto simp: cell_ok_def rc_def split: if_splits)
  have ok: "\<forall>c \<in> set (cells (release h s)). cell_ok c"
  proof
    fix c assume "c \<in> set (cells (release h s))"
    then obtain k where k: "k < length (cells s)" "c = cells (release h s) ! k"
      by (metis release_frame(10) in_set_conv_nth)
    have "cell_ok (cells s ! k)" using assms k(1) by (simp add: acct_def)
    then show "cell_ok c" using k cnt h f0
      by (auto simp: cells_release_nth cell_ok_def rc_def split: if_splits)
  qed
  have "int (count (held s + L) k) = ((rc s)(h := rc s h - 1)) k" for k
  proof -
    have "int (count (held s + add_mset h L) k) = rc s k" using assms by (simp add: acct_def)
    then show ?thesis by (cases "k = h") simp_all
  qed
  then show ?thesis using ok by (simp add: acct_def rc_release [OF h] held_release [OF h f0])
qed


lemma rc_make_holder:
  "rc (snd (make_holder t s)) = (rc s)(length (cells s) := 1)"
  by (auto simp: rc_def fun_eq_iff nth_append)

lemma held_make_holder: "held (snd (make_holder t s)) = held s + captured t"
  by (simp add: held_def live_captured_def)

lemma acct_make_holder:
  assumes "acct s (captured t + L)"
  shows "acct (snd (make_holder t s)) (add_mset (length (cells s)) L)"
proof -
  have eq: "int (count (held s + (captured t + L)) k) = rc s k" for k
    using assms by (simp add: acct_def)
  have "int (count (held (snd (make_holder t s)) + add_mset (length (cells s)) L) k)
        = ((rc s)(length (cells s) := 1)) k" for k
  proof (cases "k = length (cells s)")
    case True
    have "rc s k = 0" using True by (simp add: rc_def)
    with eq [of k] show ?thesis using True by (simp add: held_make_holder)
  next
    case False
    with eq [of k] show ?thesis by (simp add: held_make_holder)
  qed
  moreover have "\<forall>c \<in> set (cells (snd (make_holder t s))). cell_ok c"
    using assms by (auto simp: acct_def cell_ok_def)
  ultimately show ?thesis by (simp add: acct_def rc_make_holder)
qed

lemma acct_cong:
  assumes "gets s' = gets s" "waits s' = waits s" "queue s' = queue s" "ready s' = ready s"
    "cells s' = cells s"
  shows "acct s' L = acct s L"
  using assms by (simp add: acct_def held_def rc_def)

lemma acct_record_event [simp]: "acct (record_event e s) L = acct s L"
  by (rule acct_cong) simp_all

lemma acct_makeWaiterTask:
  assumes "acct s (add_mset holder L)"
  shows "acct (snd (makeWaiterTask Ln index holder s))
              (add_mset (fst (makeWaiterTask Ln index holder s)) L)"
proof (cases "waiters Ln = []")
  case True
  then show ?thesis using assms by (simp add: makeWaiterTask_def)
next
  case False
  let ?t = "WaiterTask (laneIndex Ln) index holder"
  let ?s1 = "clone holder s"
  let ?s2 = "snd (make_holder ?t ?s1)"
  have "acct ?s1 (add_mset holder (add_mset holder L))"
    using assms by (intro acct_clone) simp_all
  then have "acct ?s1 (captured ?t + add_mset holder L)" by simp
  then have "acct ?s2 (add_mset (length (cells ?s1)) (add_mset holder L))"
    by (rule acct_make_holder)
  then have "acct ?s2 (add_mset holder (add_mset (length (cells ?s1)) L))"
    by (simp add: add_mset_commute)
  then have "acct (release holder ?s2) (add_mset (length (cells ?s1)) L)"
    by (rule acct_release)
  then show ?thesis using False by (simp add: makeWaiterTask_def Let_def split_beta)
qed

lemma acct_makeTaskForDataProduct:
  assumes "acct s (add_mset holder L)"
  shows "acct (snd (makeTaskForDataProduct cfg Ln index holder s))
              (add_mset (fst (makeTaskForDataProduct cfg Ln index holder s)) L)"
proof (cases "usesProductReadyAsync cfg")
  case True
  let ?t = "ProductReadyTask (laneIndex Ln) index holder"
  let ?s1 = "clone holder s"
  let ?p = "length (cells ?s1)"
  let ?s2 = "snd (make_holder ?t ?s1)"
  let ?r = "makeWaiterTask Ln index ?p ?s2"
  have "acct ?s1 (add_mset holder (add_mset holder L))"
    using assms by (intro acct_clone) simp_all
  then have "acct ?s1 (captured ?t + add_mset holder L)" by simp
  then have "acct ?s2 (add_mset ?p (add_mset holder L))"
    by (rule acct_make_holder)
  then have "acct (snd ?r) (add_mset (fst ?r) (add_mset holder L))"
    by (rule acct_makeWaiterTask)
  then have "acct (snd ?r) (add_mset holder (add_mset (fst ?r) L))"
    by (simp add: add_mset_commute)
  then have "acct (release holder (snd ?r)) (add_mset (fst ?r) L)"
    by (rule acct_release)
  then show ?thesis using True by (simp add: makeTaskForDataProduct_def Let_def split_beta)
next
  case False
  let ?s1 = "clone holder s"
  let ?r = "makeWaiterTask Ln index holder ?s1"
  have "acct ?s1 (add_mset holder (add_mset holder L))"
    using assms by (intro acct_clone) simp_all
  then have "acct (snd ?r) (add_mset (fst ?r) (add_mset holder L))"
    by (rule acct_makeWaiterTask)
  then have "acct (snd ?r) (add_mset holder (add_mset (fst ?r) L))"
    by (simp add: add_mset_commute)
  then have "acct (release holder (snd ?r)) (add_mset (fst ?r) L)"
    by (rule acct_release)
  then show ?thesis using False by (simp add: makeTaskForDataProduct_def Let_def split_beta)
qed

lemma acct_getAsync:
  assumes "acct s (add_mset t L)"
  shows "acct (getAsync l index t s) L"
  using assms by (simp add: acct_def held_def rc_def getAsync_def record_event_def)

lemma acct_issueProducts:
  assumes "acct s (add_mset holder L)"
  shows "acct (issueProducts cfg Ln holder index ds s) (add_mset holder L)"
  using assms
proof (induction ds arbitrary: index s)
  case Nil
  then show ?case by simp
next
  case (Cons d ds)
  let ?s1 = "clone holder s"
  let ?r = "makeTaskForDataProduct cfg Ln index holder ?s1"
  have "acct ?s1 (add_mset holder (add_mset holder L))"
    using Cons.prems by (intro acct_clone) simp_all
  then have "acct (snd ?r) (add_mset (fst ?r) (add_mset holder L))"
    by (rule acct_makeTaskForDataProduct)
  then have "acct (getAsync (laneIndex Ln) index (fst ?r) (snd ?r)) (add_mset holder L)"
    by (rule acct_getAsync)
  from Cons.IH [OF this] show ?case by (simp add: Let_def split_beta)
qed

lemma acct_processEventAsync:
  assumes "acct s (add_mset iCallback L)"
  shows "acct (processEventAsync cfg Ln iCallback s) L"
proof -
  let ?t = "OutputTask (laneIndex Ln) iCallback"
  let ?s1 = "snd (make_holder ?t s)"
  have "acct s (captured ?t + L)" using assms by simp
  then have "acct ?s1 (add_mset (length (cells s)) L)" by (rule acct_make_holder)
  then have "acct (issueProducts cfg Ln (length (cells s)) 0 (dataProducts cfg (laneIndex Ln)) ?s1)
              (add_mset (length (cells s)) L)"
    by (rule acct_issueProducts)
  then show ?thesis by (simp add: processEventAsync_def Let_def split_beta acct_release)
qed

lemma acct_processEventTask:
  assumes "acct s L"
  shows "acct (processEventTask cfg Ln s) L"
proof -
  have "acct s (captured (RecursiveTask (laneIndex Ln)) + L)" using assms by simp
  then have "acct (snd (make_holder (RecursiveTask (laneIndex Ln)) s)) (add_mset (length (cells s)) L)"
    by (rule acct_make_holder)
  then show ?thesis by (simp add: processEventTask_def Let_def split_beta acct_processEventAsync)
qed

lemma acct_doNextEvent [simp]: "acct (doNextEvent cfg Ln s) L = acct s L"
  by (rule acct_cong) (simp_all add: doNextEvent_def Let_def gotoEventAsync_def)

lemma acct_execute:
  assumes "acct s (captured t + L)"
  shows "acct (execute cfg t s) L"
proof (cases t)
  case (RecursiveTask l)
  then show ?thesis using assms by simp
next
  case (OutputTask l callback)
  let ?s1 = "clone callback (record_event (OutputCalled l) s)"
  have "acct ?s1 (add_mset callback (add_mset callback L))"
    using assms OutputTask by (intro acct_clone) simp_all
  then have "acct (outputAsync l (eventIdentifier cfg (position s l)) callback ?s1) (add_mset callback L)"
    by (simp add: acct_def held_def rc_def outputAsync_def)
  then show ?thesis using OutputTask by (simp add: acct_release)
next
  case (ProductReadyTask l index holder)
  let ?s1 = "clone holder (record_event (ProductReady l index) s)"
  have "acct ?s1 (add_mset holder (add_mset holder L))"
    using assms ProductReadyTask by (intro acct_clone) simp_all
  then show ?thesis using ProductReadyTask by (simp add: productReadyAsync_def acct_release)
next
  case (WaiterTask l index holder)
  let ?s1 = "clone holder s"
  have "acct ?s1 (add_mset holder (add_mset holder L))"
    using assms WaiterTask by (intro acct_clone) simp_all
  then have "acct (waitAsync l index holder ?s1) (add_mset holder L)"
    by (simp add: acct_def held_def rc_def waitAsync_def record_event_def)
  then show ?thesis using WaiterTask by (simp add: acct_release)
qed

lemma acct_step:
  assumes "acct s {#}" and "step cfg a s = Some s'"
  shows "acct s' {#}"
proof (cases a)
  case (Start i)
  have "acct (s\<lparr>unstarted := remove_nth i (unstarted s)\<rparr>) {#} = acct s {#}"
    by (rule acct_cong) simp_all
  then show ?thesis using assms Start by (auto simp: processEventsAsync_def split: if_splits)
next
  case (SeekDone i)
  obtain l presentIndex where e: "seeks s ! i = (l, presentIndex)" by (cases "seeks s ! i") auto
  let ?s1 = "s\<lparr>seeks := remove_nth i (seeks s)\<rparr>"
  have 1: "acct ?s1 {#}" using assms(1) acct_cong [of ?s1 s] by simp
  have 2: "acct (?s1\<lparr>position := (position ?s1)(l := presentIndex)\<rparr>) {#}"
    using 1 acct_cong [of "?s1\<lparr>position := (position ?s1)(l := presentIndex)\<rparr>" ?s1] by simp
  show ?thesis using assms(2) SeekDone e 1 acct_processEventTask [OF 2]
    by (auto simp: Let_def split: if_splits)
next
  case (GetDone i)
  show ?thesis
  proof (cases "i < length (gets s)")
    case True
    obtain l index holder where e: "gets s ! i = (l, index, holder)" by (cases "gets s ! i") auto
    let ?s1 = "s\<lparr>gets := remove_nth i (gets s)\<rparr>"
    have "add_mset holder (mset (map (\<lambda>(l, index, h). h) (remove_nth i (gets s))))
          = mset (map (\<lambda>(l, index, h). h) (gets s))"
      using mset_map_remove_nth [OF True, of "\<lambda>(l, index, h). h"] e by simp
    then have "held ?s1 + {#holder#} = held s" by (simp add: held_def)
    then have "acct ?s1 {#holder#}" using assms(1) by (simp add: acct_def rc_def)
    then have "acct (release holder (record_event (Retrieved l index) ?s1)) {#}"
      by (intro acct_release) simp
    then show ?thesis using assms(2) GetDone True e by (auto simp: Let_def)
  next
    case False
    then show ?thesis using assms(2) GetDone by simp
  qed
next
  case (WaitDone i)
  show ?thesis
  proof (cases "i < length (waits s)")
    case True
    obtain l index holder where e: "waits s ! i = (l, index, holder)" by (cases "waits s ! i") auto
    let ?s1 = "s\<lparr>waits := remove_nth i (waits s)\<rparr>"
    have "add_mset holder (mset (map (\<lambda>(l, index, h). h) (remove_nth i (waits s))))
          = mset (map (\<lambda>(l, index, h). h) (waits s))"
      using mset_map_remove_nth [OF True, of "\<lambda>(l, index, h). h"] e by simp
    then have "held ?s1 + {#holder#} = held s" by (simp add: held_def)
    then have "acct ?s1 {#holder#}" using assms(1) by (simp add: acct_def rc_def)
    then have "acct (release holder (record_event (WaitEnded l index) ?s1)) {#}"
      by (intro acct_release) simp
    then show ?thesis using assms(2) WaitDone True e by (auto simp: Let_def)
  next
    case False
    then show ?thesis using assms(2) WaitDone by simp
  qed
next
  case (Run i)
  show ?thesis
  proof (cases "i < length (ready s)")
    case True
    let ?s1 = "s\<lparr>ready := remove_nth i (ready s)\<rparr>"
    have "sum_list (map captured (remove_nth i (ready s))) + captured (ready s ! i)
          = sum_list (map captured (ready s))"
      using True by (rule sum_list_map_remove_nth)
    then have "held ?s1 + captured (ready s ! i) = held s" by (simp add: held_def ac_simps)
    then have "acct ?s1 (captured (ready s ! i) + {#})" using assms(1) by (simp add: acct_def rc_def)
    then have "acct (execute cfg (ready s ! i) ?s1) {#}" by (rule acct_execute)
    then show ?thesis using assms(2) Run True by simp
  next
    case False
    then show ?thesis using assms(2) Run by simp
  qed
next
  case Collate
  show ?thesis
  proof (cases "queue s")
    case Nil
    then show ?thesis using assms(2) Collate by simp
  next
    case (Cons x rest)
    obtain l iEventID callback where x: "x = (l, iEventID, callback)" by (cases x) auto
    from assms(2) Collate Cons x obtain o' where
      f: "fillEntry (deref cfg) iEventID (entries (out s) ! l) (out s) = Inr o'" and
      s': "s' = record_event (Collated l) (release callback (s\<lparr>queue := rest, out := o'\<rparr>))"
      by (auto simp: collateProducts_def split: if_splits sum.splits)
    have "held (s\<lparr>queue := rest, out := o'\<rparr>) + {#callback#} = held s"
      using Cons x by (simp add: held_def)
    then have "acct (s\<lparr>queue := rest, out := o'\<rparr>) {#callback#}"
      using assms(1) by (simp add: acct_def rc_def)
    then show ?thesis using s' by (simp add: acct_release)
  qed
qed

lemma acct_init: "acct (init cfg o0) {#}"
  by (simp add: acct_def init_def held_def rc_def)

lemma exec_append:
  "exec cfg (as @ bs) s = (case exec cfg as s of None \<Rightarrow> None | Some s' \<Rightarrow> exec cfg bs s')"
  by (induction as arbitrary: s) (auto split: option.splits)

lemma acct_exec:
  assumes "acct s {#}" and "exec cfg as s = Some s'"
  shows "acct s' {#}"
  using assms
proof (induction as arbitrary: s)
  case Nil
  then show ?case by simp
next
  case (Cons a as)
  then show ?case by (auto split: option.splits dest: acct_step)
qed

text \<open>
  C10. \<open>RNTupleOutputer::productReadyAsync\<close> does nothing but let go of the callback
  it was given: the sink, the requests, the queue, the counter and the bound tasks are
  as before, the reference count of the callback's cell is one less and every other
  count is unchanged, and the task of that cell is handed to the group exactly if this
  was its last holder. So each call releases the holder it receives once.
\<close>

theorem productReadyAsync_releases_once:
  "productReadyAsync iLaneIndex iDataProduct iCallback s = release iCallback s
   \<and> out (productReadyAsync iLaneIndex iDataProduct iCallback s) = out s
   \<and> gets (productReadyAsync iLaneIndex iDataProduct iCallback s) = gets s
   \<and> waits (productReadyAsync iLaneIndex iDataProduct iCallback s) = waits s
   \<and> queue (productReadyAsync iLaneIndex iDataProduct iCallback s) = queue s
   \<and> seeks (productReadyAsync iLaneIndex iDataProduct iCallback s) = seeks s
   \<and> unstarted (productReadyAsync iLaneIndex iDataProduct iCallback s) = unstarted s
   \<and> counter (productReadyAsync iLaneIndex iDataProduct iCallback s) = counter s
   \<and> position (productReadyAsync iLaneIndex iDataProduct iCallback s) = position s
   \<and> trace (productReadyAsync iLaneIndex iDataProduct iCallback s) = trace s
   \<and> map job (cells (productReadyAsync iLaneIndex iDataProduct iCallback s)) = map job (cells s)
   \<and> rc (productReadyAsync iLaneIndex iDataProduct iCallback s)
       = (if iCallback < length (cells s) then (rc s)(iCallback := rc s iCallback - 1) else rc s)
   \<and> ready (productReadyAsync iLaneIndex iDataProduct iCallback s)
       = ready s @ (if iCallback < length (cells s) \<and> refs (cells s ! iCallback) = 1
                    then [job (cells s ! iCallback)] else [])"
proof -
  have "rc (release iCallback s)
        = (if iCallback < length (cells s) then (rc s)(iCallback := rc s iCallback - 1) else rc s)"
    by (cases "iCallback < length (cells s)") (simp_all add: rc_release, simp add: release_def)
  then show ?thesis by (simp add: productReadyAsync_def ready_release)
qed

end
